theory Spec2Isabelle
  imports Complex_Main "HOL-Library.Char_ord" "HOL-Library.List_Lexorder" "HOL-Library.Log_Nat"
begin

section \<open>The keyword match analyzer of app.py\<close>

text \<open>
  The analytics functions of \<^verbatim>\<open>src/app.py\<close> (lines 87 to 116) are embedded here:
  the constant \<^verbatim>\<open>STOPWORDS\<close>, \<^verbatim>\<open>tokenize\<close> and \<^verbatim>\<open>analyze_match\<close>.

  A Python \<^verbatim>\<open>str\<close> is a sequence of code points. It is modelled as a \<open>string\<close>, that
  is a list of \<open>char\<close>, each \<open>char\<close> read as the code point with the same number
  (U+0000 to U+00FF). The library functions the source calls (\<^verbatim>\<open>str.lower\<close>, the
  regular expression classes \<^verbatim>\<open>[a-zA-Z]\<close>, \<^verbatim>\<open>\w\<close> and \<^verbatim>\<open>\b\<close>, \<^verbatim>\<open>re.findall\<close>,
  \<^verbatim>\<open>sorted\<close>, \<^verbatim>\<open>round\<close> and float arithmetic) are written out as CPython 3 defines
  them on that range.
\<close>

subsection \<open>Characters\<close>

definition is_ascii_letter :: "char \<Rightarrow> bool" where
  \<comment> \<open>the character class \<^verbatim>\<open>[a-zA-Z]\<close>\<close>
  "is_ascii_letter c =
     (let n = (of_char c :: nat) in (97 \<le> n \<and> n \<le> 122) \<or> (65 \<le> n \<and> n \<le> 90))"

definition is_lower_letter :: "char \<Rightarrow> bool" where
  \<comment> \<open>the letters a to z\<close>
  "is_lower_letter c = (let n = (of_char c :: nat) in 97 \<le> n \<and> n \<le> 122)"

definition is_word :: "char \<Rightarrow> bool" where
  \<comment> \<open>the class \<^verbatim>\<open>\w\<close> of a \<^verbatim>\<open>str\<close> pattern: alphanumeric code points and the underscore.
      Below U+0100 these are the digits, the ASCII letters, the underscore, the ordinal
      indicators, the superscript digits, the micro sign, the vulgar fractions and the
      Latin-1 letters (all of U+00C0 to U+00FF but the two signs U+00D7 and U+00F7).\<close>
  "is_word c =
     (let n = (of_char c :: nat) in
        (48 \<le> n \<and> n \<le> 57) \<or> (65 \<le> n \<and> n \<le> 90) \<or> n = 95 \<or> (97 \<le> n \<and> n \<le> 122) \<or>
        n = 170 \<or> n = 178 \<or> n = 179 \<or> n = 181 \<or> n = 185 \<or> n = 186 \<or>
        (188 \<le> n \<and> n \<le> 190) \<or> (192 \<le> n \<and> n \<le> 214) \<or> (216 \<le> n \<and> n \<le> 246) \<or>
        248 \<le> n)"

definition lower_char :: "char \<Rightarrow> char" where
  \<comment> \<open>\<^verbatim>\<open>str.lower\<close> on one code point below U+0100: the ASCII capitals and the Latin-1
      capitals (U+00C0 to U+00DE but the multiplication sign) move up by 32.\<close>
  "lower_char c =
     (let n = (of_char c :: nat) in
        if (65 \<le> n \<and> n \<le> 90) \<or> (192 \<le> n \<and> n \<le> 214) \<or> (216 \<le> n \<and> n \<le> 222)
        then char_of (n + 32) else c)"

definition lower :: "string \<Rightarrow> string" where
  "lower text = map lower_char text"

subsection \<open>The stopwords\<close>

definition STOPWORDS :: "string set" where
  "STOPWORDS =
     {''the'', ''a'', ''an'', ''and'', ''or'', ''to'', ''of'', ''in'', ''on'', ''for'', ''with'',
      ''at'', ''by'', ''is'', ''are'', ''was'', ''were'', ''be'', ''this'', ''that'', ''as'',
      ''it'', ''from'', ''will'', ''you'', ''your'', ''our'', ''we'', ''they'', ''them'',
      ''their'', ''i'', ''me'', ''my''}"

subsection \<open>The regular expression\<close>

text \<open>
  \<^verbatim>\<open>re.findall(r"\b[a-zA-Z]{2,}\b", s)\<close> scans \<open>s\<close> from left to right. At each position
  it tries the pattern; after a match it goes on behind the match, otherwise one
  character further. The scan below keeps the rest of the string and whether the
  character before it is a word character (at the start of the string there is none).

  \<^verbatim>\<open>\b\<close> holds between a word character and a character that is not one, the two ends
  of the string counting as not one.
\<close>

definition word_boundary :: "bool \<Rightarrow> string \<Rightarrow> bool" where
  "word_boundary prev_word rest =
     (prev_word \<noteq> (case rest of [] \<Rightarrow> False | c # _ \<Rightarrow> is_word c))"

text \<open>
  The quantifier \<^verbatim>\<open>{2,}\<close> is greedy: it first takes every letter there is and gives
  letters back, one at a time and never below two, until the closing \<^verbatim>\<open>\b\<close> holds.
  \<open>backtrack s k\<close> tries the lengths \<open>k\<close>, \<open>k - 1\<close>, ... and returns the first that fits.
\<close>

fun backtrack :: "string \<Rightarrow> nat \<Rightarrow> nat option" where
  "backtrack s 0 = None"
| "backtrack s (Suc k) =
     (if Suc k < 2 then None
      else if word_boundary (is_word (s ! k)) (drop (Suc k) s) then Some (Suc k)
      else backtrack s k)"

definition match_token :: "bool \<Rightarrow> string \<Rightarrow> nat option" where
  \<comment> \<open>the length of the match of the pattern at the start of \<open>s\<close>, if there is one\<close>
  "match_token prev_word s =
     (if word_boundary prev_word s
      then backtrack s (length (takeWhile is_ascii_letter s))
      else None)"

lemma backtrack_bounds: "backtrack s k = Some n \<Longrightarrow> 2 \<le> n \<and> n \<le> k"
  by (induction k) (auto split: if_splits)

lemma match_token_bounds:
  "match_token pw s = Some n \<Longrightarrow> 2 \<le> n \<and> n \<le> length (takeWhile is_ascii_letter s)"
  by (auto simp: match_token_def split: if_splits dest: backtrack_bounds)

function findall :: "bool \<Rightarrow> string \<Rightarrow> string list" where
  "findall prev_word [] = []"
| "findall prev_word (c # cs) =
     (case match_token prev_word (c # cs) of
        Some n \<Rightarrow> take n (c # cs) # findall (is_word ((c # cs) ! (n - 1))) (drop n (c # cs))
      | None \<Rightarrow> findall (is_word c) cs)"
  by pat_completeness auto
termination
proof (relation "measure (\<lambda>(pw, s). length s)")
  fix pw :: bool and c :: char and cs :: string and n :: nat
  assume "match_token pw (c # cs) = Some n"
  then have "2 \<le> n" by (auto dest: match_token_bounds)
  then show "((is_word ((c # cs) ! (n - 1)), drop n (c # cs)), (pw, c # cs))
               \<in> measure (\<lambda>(pw, s). length s)"
    by simp
qed simp_all

subsection \<open>tokenize\<close>

definition tokenize :: "string \<Rightarrow> string list" where
  "tokenize text = (let words = findall False (lower text) in [w \<leftarrow> words. w \<notin> STOPWORDS])"

subsection \<open>Sets, dictionaries and sorting\<close>

text \<open>
  A Python \<^verbatim>\<open>set\<close> of strings is a \<open>string set\<close>. \<^verbatim>\<open>list(s)\<close> lists the elements of
  \<open>s\<close> in an order that Python leaves open (it follows the hashes of the strings, which
  change from one run of the interpreter to the next). The model takes that order as a
  parameter \<open>iter\<close>, a function from a set to a list of its elements.

  A \<^verbatim>\<open>dict\<close> keeps its keys in the order of their first insertion. It is an
  association list with one pair for each key, in that order.
\<close>

definition iteration_order :: "(string set \<Rightarrow> string list) \<Rightarrow> bool" where
  "iteration_order iter = (\<forall>s. finite s \<longrightarrow> set (iter s) = s \<and> distinct (iter s))"

definition dict_get :: "('k \<times> 'v) list \<Rightarrow> 'k \<Rightarrow> 'v \<Rightarrow> 'v" where
  \<comment> \<open>\<^verbatim>\<open>d.get(k, default)\<close>\<close>
  "dict_get d k dflt = (case map_of d k of None \<Rightarrow> dflt | Some v \<Rightarrow> v)"

fun dict_set :: "('k \<times> 'v) list \<Rightarrow> 'k \<Rightarrow> 'v \<Rightarrow> ('k \<times> 'v) list" where
  \<comment> \<open>\<^verbatim>\<open>d[k] = v\<close>: a key that is there keeps its place, a new key goes to the end\<close>
  "dict_set [] k v = [(k, v)]"
| "dict_set ((k', v') # d) k v =
     (if k' = k then (k, v) # d else (k', v') # dict_set d k v)"

definition dict :: "('k \<times> 'v) list \<Rightarrow> ('k \<times> 'v) list" where
  \<comment> \<open>\<^verbatim>\<open>dict(pairs)\<close>\<close>
  "dict pairs = fold (\<lambda>(k, v) d. dict_set d k v) pairs []"

definition sorted_reverse :: "('a \<Rightarrow> 'b::linorder) \<Rightarrow> 'a list \<Rightarrow> 'a list" where
  \<comment> \<open>\<^verbatim>\<open>sorted(xs, key=f, reverse=True)\<close>: CPython reverses the list, sorts it stably
      in ascending order and reverses the result, so that equal keys keep their order\<close>
  "sorted_reverse f xs = rev (sort_key f (rev xs))"

subsection \<open>Float arithmetic\<close>

text \<open>
  A Python \<^verbatim>\<open>float\<close> is an IEEE 754 binary64 number. The finite ones are rational
  numbers, and every operation returns the exact result rounded to the nearest binary64
  number, a tie going to the even significand. The numbers that occur here lie between
  0 and 100, so that infinities and NaNs do not arise; \<open>to_double\<close> is the rounding on
  the range below \<open>2 ^ 1024\<close>.
\<close>

definition round_half_even :: "rat \<Rightarrow> int" where
  \<comment> \<open>\<^verbatim>\<open>round(x)\<close> of a float: the nearest integer, a tie going to the even one\<close>
  "round_half_even x =
     (let f = \<lfloor>x\<rfloor>; r = x - of_int f
      in if r < 1 / 2 then f else if 1 / 2 < r then f + 1 else if even f then f else f + 1)"

definition pow2 :: "int \<Rightarrow> rat" where
  "pow2 e = (if 0 \<le> e then 2 ^ nat e else 1 / 2 ^ nat (- e))"

definition exponent :: "rat \<Rightarrow> int" where
  \<comment> \<open>for \<open>0 < x\<close>, the \<open>e\<close> with \<open>2 ^ e \<le> x < 2 ^ (e + 1)\<close>\<close>
  "exponent x =
     (let (n, d) = quotient_of x; e = bitlen n - bitlen d
      in if pow2 e \<le> x then e else e - 1)"

definition ulp :: "rat \<Rightarrow> rat" where
  \<comment> \<open>the distance between the binary64 numbers around \<open>x\<close>: 52 bits follow the leading
      one; below \<open>2 ^ - 1022\<close> the numbers are subnormal\<close>
  "ulp x = pow2 (max (exponent \<bar>x\<bar>) (- 1022) - 52)"

definition to_double :: "rat \<Rightarrow> rat" where
  "to_double x =
     (if x = 0 then 0 else sgn x * of_int (round_half_even (\<bar>x\<bar> / ulp x)) * ulp x)"

datatype error = ZeroDivisionError

definition float_div :: "nat \<Rightarrow> nat \<Rightarrow> error + rat" where
  \<comment> \<open>\<^verbatim>\<open>a / b\<close> on two integers (here two lengths): the quotient, correctly rounded\<close>
  "float_div a b =
     (if b = 0 then Inl ZeroDivisionError else Inr (to_double (of_nat a / of_nat b)))"

definition float_mul :: "rat \<Rightarrow> rat \<Rightarrow> rat" where
  "float_mul x y = to_double (x * y)"

subsection \<open>analyze\_match\<close>

text \<open>
  \<^verbatim>\<open>analyze_match\<close> returns a tuple of four values, which its caller unpacks as
  \<^verbatim>\<open>match_score, overlap, missing, top_job_keywords\<close>.
\<close>

record match_result =
  match_score :: int
  overlap :: "string list"
  missing :: "string list"
  top_job_keywords :: "(string \<times> int) list"

definition count_words :: "string list \<Rightarrow> (string \<times> int) list" where
  \<comment> \<open>the loop \<^verbatim>\<open>for w in ...: freq_job[w] = freq_job.get(w, 0) + 1\<close> from \<^verbatim>\<open>freq_job = {}\<close>\<close>
  "count_words ws = fold (\<lambda>w freq_job. dict_set freq_job w (dict_get freq_job w 0 + 1)) ws []"

definition analyze_match_iter ::
  "(string set \<Rightarrow> string list) \<Rightarrow> string \<Rightarrow> string \<Rightarrow> error + match_result" where
  "analyze_match_iter iter resume_text job_text =
     (let jd_tokens = set (tokenize job_text);
          res_tokens = set (tokenize resume_text)
      in if jd_tokens = {}
         then Inr \<lparr>match_score = 0, overlap = [], missing = [], top_job_keywords = []\<rparr>
         else
           let overlap_set = jd_tokens \<inter> res_tokens;
               missing_set = jd_tokens - res_tokens
           in case float_div (card overlap_set) (card jd_tokens) of
                Inl e \<Rightarrow> Inl e
              | Inr q \<Rightarrow>
                  let score = round_half_even (float_mul q 100);
                      freq_job = count_words (tokenize job_text);
                      top = take 10 (sorted_reverse snd freq_job)
                  in Inr \<lparr>match_score = score,
                          overlap = sort (iter overlap_set),
                          missing = sort (iter missing_set),
                          top_job_keywords = dict top\<rparr>)"

definition analyze_match :: "string \<Rightarrow> string \<Rightarrow> error + match_result" where
  \<comment> \<open>the order in which a set is listed is fixed to one of the possible ones\<close>
  "analyze_match resume_text job_text =
     analyze_match_iter sorted_list_of_set resume_text job_text"

subsection \<open>The tokenizer as the specification words it\<close>

text \<open>
  The maximal runs of the characters with a property \<open>P\<close>, from left to right: a run
  starts at a character with \<open>P\<close> and takes every character up to the next one
  without \<open>P\<close>.
\<close>

function maximal_runs :: "(char \<Rightarrow> bool) \<Rightarrow> string \<Rightarrow> string list" where
  "maximal_runs P [] = []"
| "maximal_runs P (c # cs) =
     (if P c then (c # takeWhile P cs) # maximal_runs P (dropWhile P cs)
      else maximal_runs P cs)"
  by pat_completeness auto
termination
  by (relation "measure (\<lambda>(P, s). length s)") (auto simp: length_dropWhile_le less_Suc_eq_le)

definition letter_run_tokens :: "string \<Rightarrow> string list" where
  \<comment> \<open>the specification's tokenizer: the maximal runs of ASCII letters of the lowercased
      text that have two letters or more, every other character a separator, the
      stopwords removed\<close>
  "letter_run_tokens text =
     [w \<leftarrow> maximal_runs is_ascii_letter (lower text). 2 \<le> length w \<and> w \<notin> STOPWORDS]"

definition word_run_tokens :: "string \<Rightarrow> string list" where
  \<comment> \<open>the maximal runs of word characters of the lowercased text that are made of
      ASCII letters only and have two letters or more, the stopwords removed\<close>
  "word_run_tokens text =
     [w \<leftarrow> maximal_runs is_word (lower text).
        list_all is_ascii_letter w \<and> 2 \<le> length w \<and> w \<notin> STOPWORDS]"


section \<open>Properties of the tokenizer\<close>

subsection \<open>Characters and lists\<close>

lemma letter_is_word: "is_ascii_letter c \<Longrightarrow> is_word c"
  by (auto simp: is_ascii_letter_def is_word_def Let_def)

lemma lower_char_idem: "lower_char (lower_char c) = lower_char c"
  by (auto simp: lower_char_def Let_def)

lemma lower_idem: "lower (lower t) = lower t"
  by (simp add: lower_def lower_char_idem)

lemma lower_char_letter: "is_ascii_letter (lower_char c) \<Longrightarrow> is_lower_letter (lower_char c)"
  by (auto simp: lower_char_def is_ascii_letter_def is_lower_letter_def Let_def split: if_splits)

lemma takeWhile_index:
  assumes "k < length (takeWhile P s)"
  shows "k < length s" and "P (s ! k)"
proof -
  show "k < length s"
    using assms length_takeWhile_le [of P s] by simp
  have "takeWhile P s ! k \<in> set (takeWhile P s)"
    using assms by simp
  then have "P (takeWhile P s ! k)"
    by (rule set_takeWhileD [THEN conjunct2])
  then show "P (s ! k)"
    using assms by (simp add: takeWhile_nth)
qed

lemma boundary_inside:
  assumes "Suc k < length (takeWhile is_ascii_letter s)"
  shows "\<not> word_boundary (is_word (s ! k)) (drop (Suc k) s)"
proof -
  have k: "k < length (takeWhile is_ascii_letter s)" using assms by simp
  have w1: "is_word (s ! k)"
    using takeWhile_index(2) [OF k] by (rule letter_is_word)
  have w2: "is_word (s ! Suc k)"
    using takeWhile_index(2) [OF assms] by (rule letter_is_word)
  have "drop (Suc k) s = s ! Suc k # drop (Suc (Suc k)) s"
    using takeWhile_index(1) [OF assms] by (simp add: Cons_nth_drop_Suc)
  then show ?thesis
    using w1 w2 by (simp add: word_boundary_def)
qed

lemma backtrack_inner:
  "k < length (takeWhile is_ascii_letter s) \<Longrightarrow> backtrack s k = None"
proof (induction k)
  case 0 show ?case by simp
next
  case (Suc k)
  then show ?case using boundary_inside [OF Suc.prems] by simp
qed

lemma match_token_eq:
  "match_token pw s =
     (let n = length (takeWhile is_ascii_letter s) in
      if \<not> pw \<and> 2 \<le> n \<and> (case drop n s of [] \<Rightarrow> True | d # _ \<Rightarrow> \<not> is_word d)
      then Some n else None)"
proof (cases "length (takeWhile is_ascii_letter s)")
  case 0
  then show ?thesis by (simp add: match_token_def)
next
  case (Suc m)
  have m: "m < length (takeWhile is_ascii_letter s)" using Suc by simp
  have w: "is_word (s ! m)" using takeWhile_index(2) [OF m] by (rule letter_is_word)
  have hd: "s \<noteq> [] \<and> is_word (hd s)"
    using Suc by (cases s) (auto intro: letter_is_word split: if_splits)
  have inner: "backtrack s m = None" using m by (rule backtrack_inner)
  show ?thesis
    using Suc w hd inner
    by (cases s) (auto simp: match_token_def word_boundary_def Let_def split: list.splits)
qed

lemma findall_inside: "findall True s = findall False (dropWhile is_word s)"
proof (induction s)
  case Nil show ?case by simp
next
  case (Cons c cs)
  show ?case
  proof (cases "is_word c")
    case True
    then show ?thesis using Cons by (simp add: match_token_eq Let_def)
  next
    case False
    then have "\<not> is_ascii_letter c" using letter_is_word by blast
    then show ?thesis using False by (simp add: match_token_eq Let_def)
  qed
qed


lemma takeWhile_letter_word:
  "takeWhile is_ascii_letter (takeWhile is_word s) = takeWhile is_ascii_letter s"
  by (induction s) (auto dest: letter_is_word)

lemma dropWhile_head: "case dropWhile P xs of [] \<Rightarrow> True | d # _ \<Rightarrow> \<not> P d"
  by (induction xs) auto

lemma nth_prefix_last: "xs \<noteq> [] \<Longrightarrow> (xs @ ys) ! (length xs - 1) = xs ! (length xs - 1)"
  by (simp add: nth_append)

lemma takeWhile_short: "\<not> list_all P xs \<Longrightarrow> length (takeWhile P xs) < length xs"
  by (induction xs) auto

lemma take_prefix: "s = xs @ ys \<Longrightarrow> take (length xs) s = xs"
  by simp

lemma drop_prefix: "s = xs @ ys \<Longrightarrow> drop (length xs) s = ys"
  by simp

lemma match_word_run:
  assumes c: "is_word c"
  shows "match_token False (c # cs) =
           (if list_all is_ascii_letter (c # takeWhile is_word cs) \<and>
               2 \<le> length (c # takeWhile is_word cs)
            then Some (length (c # takeWhile is_word cs)) else None)"
proof -
  let ?s = "c # cs"
  let ?w = "c # takeWhile is_word cs"
  let ?rest = "dropWhile is_word cs"
  let ?l = "takeWhile is_ascii_letter ?s"
  have w: "?w = takeWhile is_word ?s" using c by simp
  have split: "?s = ?w @ ?rest" by simp
  have l: "?l = takeWhile is_ascii_letter ?w"
    unfolding w by (simp only: takeWhile_letter_word)
  show ?thesis
  proof (cases "list_all is_ascii_letter ?w")
    case True
    then have lw: "?l = ?w"
      unfolding l by (simp add: list_all_iff)
    have "drop (length ?w) ?s = ?rest"
      using split by (rule drop_prefix)
    moreover have "case ?rest of [] \<Rightarrow> True | d # _ \<Rightarrow> \<not> is_word d"
      by (rule dropWhile_head)
    ultimately show ?thesis
      using True unfolding match_token_eq Let_def lw by simp
  next
    case False
    then have short: "length ?l < length ?w"
      unfolding l by (rule takeWhile_short)
    then obtain d ds where d: "drop (length ?l) ?w = d # ds"
      by (cases "drop (length ?l) ?w") auto
    then have "d \<in> set ?w" by (metis in_set_dropD list.set_intros(1))
    then have wd: "is_word d" unfolding w by (rule set_takeWhileD [THEN conjunct2])
    have dn: "drop (length ?l) ?s = d # ds @ ?rest"
      using short d by (subst split) (simp only: drop_append, simp)
    have "match_token False ?s = None"
      unfolding match_token_eq Let_def dn using wd by simp
    then show ?thesis
      using False by (simp only: if_False simp_thms)
  qed
qed

lemma findall_word_runs:
  "findall False s =
     [w \<leftarrow> maximal_runs is_word s. list_all is_ascii_letter w \<and> 2 \<le> length w]"
proof (induction is_word s rule: maximal_runs.induct)
  case 1
  show ?case by simp
next
  case (2 c cs)
  let ?w = "c # takeWhile is_word cs"
  let ?rest = "dropWhile is_word cs"
  show ?case
  proof (cases "is_word c")
    case False
    then have "\<not> is_ascii_letter c" using letter_is_word by blast
    then show ?thesis using False 2 by (simp add: match_token_eq)
  next
    case True
    have IH: "findall False ?rest =
        [w \<leftarrow> maximal_runs is_word ?rest. list_all is_ascii_letter w \<and> 2 \<le> length w]"
      using 2(1) True by simp
    have skip: "findall True cs = findall False ?rest"
      by (simp add: findall_inside)
    have after: "findall True ?rest = findall False ?rest"
      by (simp add: findall_inside)
    show ?thesis
    proof (cases "list_all is_ascii_letter ?w \<and> 2 \<le> length ?w")
      case yes: True
      then have m: "match_token False (c # cs) = Some (length ?w)"
        using match_word_run [OF True, of cs] by simp
      have "(c # cs) ! (length ?w - 1) = ?w ! (length ?w - 1)"
        using nth_prefix_last [of ?w ?rest] by simp
      moreover have "?w ! (length ?w - 1) \<in> set ?w"
        by (rule nth_mem) simp
      ultimately have last: "is_word ((c # cs) ! (length ?w - 1))"
        using yes letter_is_word by (auto simp: list_all_iff simp del: nth_mem)
      have split: "c # cs = ?w @ ?rest" by simp
      have tk: "take (length ?w) (c # cs) = ?w"
        using split by (rule take_prefix)
      have dr: "drop (length ?w) (c # cs) = ?rest"
        using split by (rule drop_prefix)
      have lastT: "is_word ((c # cs) ! (length ?w - 1)) = True"
        using last by simp
      have "findall False (c # cs) = ?w # findall True ?rest"
        by (simp only: findall.simps m option.case lastT tk dr)
      also have "\<dots> = ?w # [w \<leftarrow> maximal_runs is_word ?rest.
                                 list_all is_ascii_letter w \<and> 2 \<le> length w]"
        by (simp only: after IH)
      also have "\<dots> = [w \<leftarrow> maximal_runs is_word (c # cs).
                           list_all is_ascii_letter w \<and> 2 \<le> length w]"
        using True yes by simp
      finally show ?thesis .
    next
      case no: False
      then have m: "match_token False (c # cs) = None"
        using match_word_run [OF True, of cs] by simp
      show ?thesis
        using True no IH skip by (simp add: m)
    qed
  qed
qed

subsection \<open>Tokens\<close>

lemma maximal_runs_subset: "w \<in> set (maximal_runs P s) \<Longrightarrow> set w \<subseteq> set s"
proof (induction P s rule: maximal_runs.induct)
  case (1 P)
  then show ?case by simp
next
  case (2 P c cs)
  show ?case
  proof (cases "P c")
    case False
    then show ?thesis using 2 by auto
  next
    case True
    then have "w = c # takeWhile P cs \<or> w \<in> set (maximal_runs P (dropWhile P cs))"
      using 2(3) by simp
    then show ?thesis
    proof
      assume "w = c # takeWhile P cs"
      then show ?thesis by (auto dest: set_takeWhileD)
    next
      assume "w \<in> set (maximal_runs P (dropWhile P cs))"
      then have "set w \<subseteq> set (dropWhile P cs)" using 2(1) True by simp
      then show ?thesis using set_dropWhileD [of _ P cs] by auto
    qed
  qed
qed

lemma findall_token:
  assumes "w \<in> set (findall False s)"
  shows "list_all is_ascii_letter w" and "2 \<le> length w" and "set w \<subseteq> set s"
  using assms maximal_runs_subset [of w is_word s] by (simp_all add: findall_word_runs)

lemma lower_letters:
  assumes "set w \<subseteq> set (lower text)" and "list_all is_ascii_letter w"
  shows "list_all is_lower_letter w"
  unfolding list_all_iff
proof
  fix c assume c: "c \<in> set w"
  then obtain d where "c = lower_char d" using assms(1) by (auto simp: lower_def)
  moreover have "is_ascii_letter c" using c assms(2) by (simp add: list_all_iff)
  ultimately show "is_lower_letter c" using lower_char_letter by blast
qed

subsection \<open>What tokenize returns\<close>

text \<open>
  Claim C1, as the specification states it: tokenize returns the maximal runs of ASCII
  letters of length two or more of the lowercased text, every other character (a digit
  too) being a separator. The code does not: the pattern asks for a word boundary on
  both sides of a run, and a digit is a word character, so that the run of letters in
  \<^verbatim>\<open>python3\<close> touches no boundary on its right and is dropped, where the specification
  returns \<^verbatim>\<open>python\<close>.
\<close>

theorem tokenize_letter_runs_counterexample:
  "tokenize ''python3'' = [] \<and> letter_run_tokens ''python3'' = [''python'']"
  by code_simp

text \<open>
  Claim C1, amended: for every text, tokenize returns, from left to right, exactly the
  maximal runs of word characters (letters, digits, underscore) of the lowercased text
  that are made of ASCII letters only and have length two or more, without the
  stopwords. Only a character that is not a word character separates two runs; a run
  of letters next to a digit or an underscore is dropped whole.
\<close>

theorem tokenize_word_runs: "tokenize text = word_run_tokens text"
  by (simp add: tokenize_def word_run_tokens_def findall_word_runs conj_assoc)

text \<open>
  Claim C6: every element of \<open>tokenize text\<close> is a string of the letters a to z, of
  length two or more, that is not a stopword; and tokenize of the empty string is the
  empty list.
\<close>

theorem tokenize_tokens:
  "(\<forall>w \<in> set (tokenize text). list_all is_lower_letter w \<and> 2 \<le> length w \<and> w \<notin> STOPWORDS)
   \<and> tokenize [] = []"
proof
  show "\<forall>w \<in> set (tokenize text). list_all is_lower_letter w \<and> 2 \<le> length w \<and> w \<notin> STOPWORDS"
  proof
    fix w assume "w \<in> set (tokenize text)"
    then have w: "w \<in> set (findall False (lower text))" and s: "w \<notin> STOPWORDS"
      by (simp_all add: tokenize_def)
    show "list_all is_lower_letter w \<and> 2 \<le> length w \<and> w \<notin> STOPWORDS"
      using findall_token [OF w] s lower_letters by blast
  qed
  show "tokenize [] = []" by (simp add: tokenize_def lower_def)
qed

text \<open>
  Claim C6 at a concrete input: \<^verbatim>\<open>quick\<close> is a token of \<^verbatim>\<open>The Quick fox\<close>, and it is
  lowercase, of length five and not a stopword.
\<close>

theorem tokenize_tokens_witness:
  "''quick'' \<in> set (tokenize ''The Quick fox'') \<and>
   list_all is_lower_letter ''quick'' \<and> 2 \<le> length ''quick'' \<and> ''quick'' \<notin> STOPWORDS"
proof -
  have "tokenize ''The Quick fox'' = [''quick'', ''fox'']" by code_simp
  then have "''quick'' \<in> set (tokenize ''The Quick fox'')" by simp
  then show ?thesis using tokenize_tokens [of "''The Quick fox''"] by blast
qed

text \<open>
  Claim C10: tokenize of the lowercased text is tokenize of the text: the case of the
  letters of the input does not matter.
\<close>

theorem tokenize_lower: "tokenize (lower text) = tokenize text"
  by (simp add: tokenize_def lower_idem)

section \<open>Properties of the float arithmetic\<close>

subsection \<open>Powers of two and rounding to an integer\<close>














subsection \<open>The exponent and the rounding error of a binary64 number\<close>












subsection \<open>The score: a quotient of at most one, times 100, rounded\<close>






section \<open>Properties of the analyzer\<close>

subsection \<open>Sets and dictionaries\<close>

lemma sort_iteration_order:
  assumes "iteration_order iter" "finite s"
  shows "sort (iter s) = sorted_list_of_set s"
proof -
  have "set (iter s) = s" and "distinct (iter s)"
    using assms by (simp_all add: iteration_order_def)
  then have "sorted_list_of_set s = sort (remdups (iter s))"
    by (metis sorted_list_of_set_sort_remdups)
  then show ?thesis using \<open>distinct (iter s)\<close> by (simp add: distinct_remdups_id)
qed

lemma iteration_order_sorted_list: "iteration_order sorted_list_of_set"
  by (simp add: iteration_order_def)

lemma map_of_dict_set: "map_of (dict_set d k v) = (map_of d)(k \<mapsto> v)"
  by (induction d k v rule: dict_set.induct) auto

lemma keys_dict_set:
  "map fst (dict_set d k v) = (if k \<in> fst ` set d then map fst d else map fst d @ [k])"
  by (induction d k v rule: dict_set.induct) auto

lemma dict_set_new: "k \<notin> fst ` set d \<Longrightarrow> dict_set d k v = d @ [(k, v)]"
  by (induction d k v rule: dict_set.induct) auto

lemma fold_dict_set_distinct:
  "distinct (map fst (acc @ xs)) \<Longrightarrow> fold (\<lambda>(k, v) d. dict_set d k v) xs acc = acc @ xs"
proof (induction xs arbitrary: acc)
  case Nil
  then show ?case by simp
next
  case (Cons x xs)
  obtain k v where x: "x = (k, v)" by (cases x)
  have new: "k \<notin> fst ` set acc" using Cons.prems x by auto
  have "distinct (map fst ((acc @ [(k, v)]) @ xs))" using Cons.prems x by simp
  then have "fold (\<lambda>(k, v) d. dict_set d k v) xs (acc @ [(k, v)]) = (acc @ [(k, v)]) @ xs"
    by (rule Cons.IH)
  then show ?case using new x by (simp add: dict_set_new)
qed

lemma dict_distinct: "distinct (map fst xs) \<Longrightarrow> dict xs = xs"
  using fold_dict_set_distinct [of "[]" xs] by (simp add: dict_def)

lemma fold_count_keys:
  "distinct (map fst d) \<Longrightarrow>
     distinct (map fst (fold (\<lambda>w freq_job. dict_set freq_job w (dict_get freq_job w (0::int) + 1)) ws d)) \<and>
     set (map fst (fold (\<lambda>w freq_job. dict_set freq_job w (dict_get freq_job w 0 + 1)) ws d))
       = fst ` set d \<union> set ws"
proof (induction ws arbitrary: d)
  case Nil
  then show ?case by simp
next
  case (Cons w ws)
  let ?d = "dict_set d w (dict_get d w 0 + 1)"
  have "distinct (map fst ?d)" and "fst ` set ?d = insert w (fst ` set d)"
    using Cons.prems keys_dict_set [of d w "dict_get d w 0 + 1"]
    by (auto simp: image_iff split: if_splits simp flip: set_map)
  then show ?case using Cons.IH [of ?d] by auto
qed

lemma fold_count_values:
  "map_of (fold (\<lambda>w freq_job. dict_set freq_job w (dict_get freq_job w 0 + 1)) ws d) k =
     (if k \<in> set ws \<or> k \<in> dom (map_of d)
      then Some (dict_get d k (0::int) + int (count_list ws k)) else None)"
proof (induction ws arbitrary: d)
  case Nil
  then show ?case by (auto simp: dict_get_def split: option.splits)
next
  case (Cons w ws)
  let ?d = "dict_set d w (dict_get d w 0 + 1)"
  have g: "dict_get ?d k 0 = (if k = w then dict_get d w 0 + 1 else dict_get d k 0)"
    by (simp add: dict_get_def map_of_dict_set)
  have dm: "dom (map_of ?d) = insert w (dom (map_of d))"
    by (simp add: map_of_dict_set)
  show ?case
    unfolding fold_Cons comp_apply Cons.IH [of ?d] g dm by auto
qed

lemma count_words_entry:
  "(w, c) \<in> set (count_words ws) \<longleftrightarrow> w \<in> set ws \<and> c = int (count_list ws w)"
proof -
  have d: "distinct (map fst (count_words ws))"
    using fold_count_keys [of "[]" ws] by (simp add: count_words_def)
  have "map_of (count_words ws) w = (if w \<in> set ws then Some (int (count_list ws w)) else None)"
    using fold_count_values [of ws "[]" w] by (simp add: count_words_def dict_get_def)
  moreover have "(w, c) \<in> set (count_words ws) \<longleftrightarrow> map_of (count_words ws) w = Some c"
    using map_of_eq_Some_iff [OF d, of w c] by (rule sym)
  ultimately show ?thesis by auto
qed

lemma count_words_keys:
  "distinct (map fst (count_words ws))" "fst ` set (count_words ws) = set ws"
  using fold_count_keys [of "[]" ws] by (simp_all add: count_words_def)

subsection \<open>Sorting by descending count\<close>

lemma set_sorted_reverse: "set (sorted_reverse f xs) = set xs"
  by (simp add: sorted_reverse_def)

lemma length_sorted_reverse: "length (sorted_reverse f xs) = length xs"
  by (simp add: sorted_reverse_def)

lemma distinct_map_insort_key:
  "distinct (map g (insort_key f x xs)) \<longleftrightarrow> g x \<notin> g ` set xs \<and> distinct (map g xs)"
  by (induction xs) (auto simp: set_insort_key)

lemma distinct_map_sort_key: "distinct (map g (sort_key f xs)) \<longleftrightarrow> distinct (map g xs)"
  by (induction xs) (simp_all add: distinct_map_insort_key)

lemma distinct_map_sorted_reverse:
  "distinct (map g (sorted_reverse f xs)) \<longleftrightarrow> distinct (map g xs)"
  by (simp add: sorted_reverse_def rev_map distinct_map_sort_key flip: rev_map)

lemma sorted_reverse_descending:
  "sorted_wrt (\<lambda>x y. f y \<le> f x) (sorted_reverse f xs)"
proof -
  have "sorted (map f (sort_key f (rev xs)))" by simp
  then have "sorted_wrt (\<lambda>x y. f x \<le> f y) (sort_key f (rev xs))"
    by (simp only: sorted_map)
  then show ?thesis by (simp add: sorted_reverse_def sorted_wrt_rev)
qed

lemma take_descending:
  assumes "sorted_wrt (\<lambda>x y. f y \<le> f x) xs"
  shows "sorted_wrt (\<lambda>x y. f y \<le> f x) (take n xs)"
    and "\<forall>x \<in> set (take n xs). \<forall>y \<in> set (drop n xs). f y \<le> f x"
proof -
  have "sorted_wrt (\<lambda>x y. f y \<le> f x) (take n xs @ drop n xs)" using assms by simp
  then show "sorted_wrt (\<lambda>x y. f y \<le> f x) (take n xs)"
    and "\<forall>x \<in> set (take n xs). \<forall>y \<in> set (drop n xs). f y \<le> f x"
    unfolding sorted_wrt_append by simp_all
qed

subsection \<open>What analyze\_match returns\<close>

text \<open>
  The result of analyze\_match with the library calls replaced by what they compute: the
  order in which the sets are listed is sorted away, and the ten pairs already have
  distinct keys.
\<close>

lemma analyze_match_iter_eq:
  assumes "iteration_order iter"
  shows "analyze_match_iter iter resume_text job_text =
     (if set (tokenize job_text) = {}
      then Inr \<lparr>match_score = 0, overlap = [], missing = [], top_job_keywords = []\<rparr>
      else Inr \<lparr>match_score =
                   round_half_even
                     (float_mul
                        (to_double
                           (of_nat (card (set (tokenize job_text) \<inter> set (tokenize resume_text))) /
                            of_nat (card (set (tokenize job_text))))) 100),
                 overlap = sorted_list_of_set (set (tokenize job_text) \<inter> set (tokenize resume_text)),
                 missing = sorted_list_of_set (set (tokenize job_text) - set (tokenize resume_text)),
                 top_job_keywords = take 10 (sorted_reverse snd (count_words (tokenize job_text)))\<rparr>)"
proof (cases "set (tokenize job_text) = {}")
  case True
  then show ?thesis by (simp add: analyze_match_iter_def)
next
  case False
  then have c: "card (set (tokenize job_text)) \<noteq> 0" by simp
  have "distinct (map fst (take 10 (sorted_reverse snd (count_words (tokenize job_text)))))"
    by (simp add: distinct_map_sorted_reverse count_words_keys(1) distinct_take take_map [symmetric]
        del: take_map)
  then have d: "dict (take 10 (sorted_reverse snd (count_words (tokenize job_text))))
      = take 10 (sorted_reverse snd (count_words (tokenize job_text)))"
    by (rule dict_distinct)
  show ?thesis
    using False c
    by (simp add: analyze_match_iter_def float_div_def Let_def d
        sort_iteration_order [OF assms])
qed

lemmas analyze_match_eq =
  analyze_match_iter_eq [OF iteration_order_sorted_list, folded analyze_match_def]

subsection \<open>Runs on concrete texts\<close>



lemma to_double_one: "to_double 1 = 1"
  by code_simp

lemma float_mul_one_hundred: "float_mul 1 100 = 100"
  by code_simp

lemma round_half_even_hundred: "round_half_even 100 = 100"
  by code_simp

lemma ranked_run:
  "analyze_match ''aa ll'' ''aa aa aa bb bb cc dd ee ff gg hh ii jj kk ll ll'' =
     Inr \<lparr>match_score = 17, overlap = [''aa'', ''ll''],
          missing = [''bb'', ''cc'', ''dd'', ''ee'', ''ff'', ''gg'', ''hh'', ''ii'', ''jj'', ''kk''],
          top_job_keywords = [(''aa'', 3), (''bb'', 2), (''ll'', 2), (''cc'', 1), (''dd'', 1),
            (''ee'', 1), (''ff'', 1), (''gg'', 1), (''hh'', 1), (''ii'', 1)]\<rparr>"
  by code_simp

lemma ranked_tokens:
  "tokenize ''aa aa aa bb bb cc dd ee ff gg hh ii jj kk ll ll'' =
     [''aa'', ''aa'', ''aa'', ''bb'', ''bb'', ''cc'', ''dd'', ''ee'', ''ff'', ''gg'', ''hh'', ''ii'',
      ''jj'', ''kk'', ''ll'', ''ll'']"
  by code_simp

lemma stopword_tokens: "tokenize ''To be, or of the...'' = []"
  by code_simp

lemma same_tokens:
  "tokenize ''SQL python sql'' = [''sql'', ''python'', ''sql'']"
  "tokenize ''Python and SQL'' = [''python'', ''sql'']"
  by code_simp+

lemma iteration_order_rev: "iteration_order (\<lambda>s. rev (sorted_list_of_set s))"
  by (simp add: iteration_order_def)

lemma length_count_words: "length (count_words ws) = card (set ws)"
proof -
  have "length (count_words ws) = length (map fst (count_words ws))" by simp
  also have "\<dots> = card (set (map fst (count_words ws)))"
    using count_words_keys(1) [of ws] by (rule distinct_card [symmetric])
  also have "\<dots> = card (set ws)"
    using count_words_keys(2) [of ws] by simp
  finally show ?thesis .
qed


subsection \<open>The score\<close>




subsection \<open>Totality and the empty job text\<close>

text \<open>
  Claim C3: analyze\_match returns a result for every pair of texts (the division by
  the number of job tokens is never reached with zero), and when the job text has no
  token, as the empty job text has none, the result is the score 0 with an empty
  overlap, nothing missing and no keywords.
\<close>

theorem analyze_match_total:
  "(\<exists>r. analyze_match resume_text job_text = Inr r) \<and>
   (set (tokenize job_text) = {} \<longrightarrow>
      analyze_match resume_text job_text =
        Inr \<lparr>match_score = 0, overlap = [], missing = [], top_job_keywords = []\<rparr>) \<and>
   analyze_match resume_text [] =
     Inr \<lparr>match_score = 0, overlap = [], missing = [], top_job_keywords = []\<rparr>"
proof -
  have "tokenize [] = []" by (simp add: tokenize_def lower_def)
  then show ?thesis by (simp add: analyze_match_eq)
qed

text \<open>
  Claim C3 at a concrete input: a job text of stopwords has no token, and the result
  is the empty one.
\<close>

theorem analyze_match_total_witness:
  "set (tokenize ''To be, or of the...'') = {} \<and>
   analyze_match ''python'' ''To be, or of the...'' =
     Inr \<lparr>match_score = 0, overlap = [], missing = [], top_job_keywords = []\<rparr>"
  using analyze_match_total [of "''python''" "''To be, or of the...''"]
  by (simp add: stopword_tokens)

subsection \<open>Overlap and missing keywords\<close>

text \<open>
  The same run with the sets listed in descending order: the overlap is listed as sql,
  python, and it is the call of \<^verbatim>\<open>sorted\<close> that puts it in order.
\<close>

lemma example_run_descending:
  "analyze_match_iter (\<lambda>s. rev (sorted_list_of_set s))
     ''python sql'' ''Python, SQL and Excel; Excel!'' =
     Inr \<lparr>match_score = 67, overlap = [''python'', ''sql''], missing = [''excel''],
          top_job_keywords = [(''excel'', 2), (''python'', 1), (''sql'', 1)]\<rparr>"
  by code_simp

lemma example_listing_descending:
  "rev (sorted_list_of_set
     (set (tokenize ''Python, SQL and Excel; Excel!'') \<inter> set (tokenize ''python sql''))) =
   [''sql'', ''python'']"
  by code_simp

text \<open>
  Claim C4: in whatever order Python lists the two sets, the overlap is the sorted list
  of the tokens of the job text that are tokens of the resume, missing is the sorted
  list of the job tokens that are not; the two lists share no element and together hold
  exactly the job tokens.
\<close>

theorem overlap_missing_sorted:
  assumes "iteration_order iter"
    and "analyze_match_iter iter resume_text job_text = Inr r"
  shows "overlap r = sorted_list_of_set (set (tokenize job_text) \<inter> set (tokenize resume_text)) \<and>
         missing r = sorted_list_of_set (set (tokenize job_text) - set (tokenize resume_text)) \<and>
         sorted (overlap r) \<and> sorted (missing r) \<and>
         set (overlap r) \<inter> set (missing r) = {} \<and>
         set (overlap r) \<union> set (missing r) = set (tokenize job_text)"
proof (cases "set (tokenize job_text) = {}")
  case True
  then have "r = \<lparr>match_score = 0, overlap = [], missing = [], top_job_keywords = []\<rparr>"
    using assms(2) by (simp add: analyze_match_iter_eq [OF assms(1)])
  then show ?thesis using True by simp
next
  case False
  then have "overlap r = sorted_list_of_set (set (tokenize job_text) \<inter> set (tokenize resume_text))"
    and "missing r = sorted_list_of_set (set (tokenize job_text) - set (tokenize resume_text))"
    using assms(2) by (auto simp: analyze_match_iter_eq [OF assms(1)])
  then show ?thesis by auto
qed

text \<open>
  Claim C4 at a concrete input, the sets listed in descending order: python and sql
  overlap, excel is missing, and both lists come out ascending.
\<close>

theorem overlap_missing_sorted_witness:
  "iteration_order (\<lambda>s. rev (sorted_list_of_set s)) \<and>
   rev (sorted_list_of_set
     (set (tokenize ''Python, SQL and Excel; Excel!'') \<inter> set (tokenize ''python sql''))) =
     [''sql'', ''python''] \<and>
   analyze_match_iter (\<lambda>s. rev (sorted_list_of_set s))
     ''python sql'' ''Python, SQL and Excel; Excel!'' =
     Inr \<lparr>match_score = 67, overlap = [''python'', ''sql''], missing = [''excel''],
          top_job_keywords = [(''excel'', 2), (''python'', 1), (''sql'', 1)]\<rparr> \<and>
   [''python'', ''sql''] =
     sorted_list_of_set (set (tokenize ''Python, SQL and Excel; Excel!'') \<inter> set (tokenize ''python sql'')) \<and>
   [''excel''] =
     sorted_list_of_set (set (tokenize ''Python, SQL and Excel; Excel!'') - set (tokenize ''python sql'')) \<and>
   sorted [''python'', ''sql''] \<and> sorted [''excel''] \<and>
   set [''python'', ''sql''] \<inter> set [''excel''] = {} \<and>
   set [''python'', ''sql''] \<union> set [''excel''] = set (tokenize ''Python, SQL and Excel; Excel!'')"
proof -
  have "[''python'', ''sql''] =
      sorted_list_of_set (set (tokenize ''Python, SQL and Excel; Excel!'') \<inter> set (tokenize ''python sql'')) \<and>
    [''excel''] =
      sorted_list_of_set (set (tokenize ''Python, SQL and Excel; Excel!'') - set (tokenize ''python sql'')) \<and>
    sorted [''python'', ''sql''] \<and> sorted [''excel''] \<and>
    set [''python'', ''sql''] \<inter> set [''excel''] = {} \<and>
    set [''python'', ''sql''] \<union> set [''excel''] = set (tokenize ''Python, SQL and Excel; Excel!'')"
    by (rule overlap_missing_sorted [OF iteration_order_rev example_run_descending,
          unfolded match_result.select_convs])
  then show ?thesis
    using iteration_order_rev example_listing_descending example_run_descending by blast
qed

subsection \<open>The most frequent job keywords\<close>

text \<open>
  Claim C5: every key of top\_job\_keywords is a token of the job text and is mapped to
  the number of times it occurs in the token sequence; the keys are distinct; there are
  at most ten entries (ten, or as many as there are distinct tokens); the counts
  do not increase along the list; and no token left out occurs more often than one that
  is in the list.
\<close>

theorem top_job_keywords_counts:
  assumes "analyze_match resume_text job_text = Inr r"
  shows "(\<forall>(w, c) \<in> set (top_job_keywords r).
            w \<in> set (tokenize job_text) \<and> c = int (count_list (tokenize job_text) w)) \<and>
         distinct (map fst (top_job_keywords r)) \<and>
         length (top_job_keywords r) \<le> 10 \<and>
         length (top_job_keywords r) = min 10 (card (set (tokenize job_text))) \<and>
         sorted_wrt (\<lambda>x y. snd y \<le> snd x) (top_job_keywords r) \<and>
         (\<forall>w \<in> set (tokenize job_text). w \<notin> fst ` set (top_job_keywords r) \<longrightarrow>
            (\<forall>(w', c') \<in> set (top_job_keywords r). int (count_list (tokenize job_text) w) \<le> c'))"
proof (cases "set (tokenize job_text) = {}")
  case True
  then have "top_job_keywords r = []"
    using assms by (auto simp: analyze_match_eq)
  then show ?thesis using True by simp
next
  case False
  let ?ws = "tokenize job_text"
  let ?L = "sorted_reverse snd (count_words ?ws)"
  have top: "top_job_keywords r = take 10 ?L"
    using assms False by (auto simp: analyze_match_eq)
  have desc: "sorted_wrt (\<lambda>x y. snd y \<le> snd x) ?L" by (rule sorted_reverse_descending)
  have entries: "w \<in> set ?ws \<and> c = int (count_list ?ws w)" if "(w, c) \<in> set (take 10 ?L)" for w c
  proof -
    have "(w, c) \<in> set ?L" using that by (rule in_set_takeD)
    then show ?thesis by (simp add: set_sorted_reverse count_words_entry)
  qed
  have dist: "distinct (map fst (take 10 ?L))"
    by (simp add: distinct_map_sorted_reverse count_words_keys(1) distinct_take take_map [symmetric]
        del: take_map)
  have len: "length (take 10 ?L) = min 10 (card (set ?ws))"
    by (simp add: length_sorted_reverse length_count_words min.commute)
  have rest: "int (count_list ?ws w) \<le> c'"
    if w: "w \<in> set ?ws" "w \<notin> fst ` set (take 10 ?L)" and t: "(w', c') \<in> set (take 10 ?L)"
    for w w' c'
  proof -
    have "(w, int (count_list ?ws w)) \<in> set (take 10 ?L @ drop 10 ?L)"
      using w(1) by (simp add: set_sorted_reverse count_words_entry)
    moreover have "(w, int (count_list ?ws w)) \<notin> set (take 10 ?L)"
      using w(2) by force
    ultimately have "(w, int (count_list ?ws w)) \<in> set (drop 10 ?L)"
      unfolding set_append by blast
    then have "snd (w, int (count_list ?ws w)) \<le> snd (w', c')"
      using take_descending(2) [OF desc, of 10] t by blast
    then show ?thesis by simp
  qed
  have len10: "length (take 10 ?L) \<le> 10" by simp
  show ?thesis
    unfolding top using entries dist len10 len take_descending(1) [OF desc, of 10] rest
    by (intro conjI ballI impI) (auto simp only: split_paired_all prod.case)
qed

text \<open>
  Claim C5 at a concrete input with twelve distinct tokens: \<^verbatim>\<open>ll\<close> occurs twice and is
  listed with 2; \<^verbatim>\<open>kk\<close> occurs once, is left out, and no listed count is below 1.
\<close>

theorem top_job_keywords_counts_witness:
  "analyze_match ''aa ll'' ''aa aa aa bb bb cc dd ee ff gg hh ii jj kk ll ll'' =
     Inr \<lparr>match_score = 17, overlap = [''aa'', ''ll''],
          missing = [''bb'', ''cc'', ''dd'', ''ee'', ''ff'', ''gg'', ''hh'', ''ii'', ''jj'', ''kk''],
          top_job_keywords = [(''aa'', 3), (''bb'', 2), (''ll'', 2), (''cc'', 1), (''dd'', 1),
            (''ee'', 1), (''ff'', 1), (''gg'', 1), (''hh'', 1), (''ii'', 1)]\<rparr> \<and>
   ''ll'' \<in> set (tokenize ''aa aa aa bb bb cc dd ee ff gg hh ii jj kk ll ll'') \<and>
   2 = int (count_list (tokenize ''aa aa aa bb bb cc dd ee ff gg hh ii jj kk ll ll'') ''ll'') \<and>
   ''kk'' \<in> set (tokenize ''aa aa aa bb bb cc dd ee ff gg hh ii jj kk ll ll'') \<and>
   ''kk'' \<notin> fst ` set [(''aa'', 3::int), (''bb'', 2), (''ll'', 2), (''cc'', 1), (''dd'', 1),
            (''ee'', 1), (''ff'', 1), (''gg'', 1), (''hh'', 1), (''ii'', 1)] \<and>
   int (count_list (tokenize ''aa aa aa bb bb cc dd ee ff gg hh ii jj kk ll ll'') ''kk'') \<le> 1"
proof -
  let ?J = "''aa aa aa bb bb cc dd ee ff gg hh ii jj kk ll ll''"
  have k: "''kk'' \<in> set (tokenize ?J)" by (simp add: ranked_tokens)
  have n: "''kk'' \<notin> fst ` set [(''aa'', 3::int), (''bb'', 2), (''ll'', 2), (''cc'', 1), (''dd'', 1),
            (''ee'', 1), (''ff'', 1), (''gg'', 1), (''hh'', 1), (''ii'', 1)]" by simp
  show ?thesis
    using top_job_keywords_counts [OF ranked_run] ranked_run k n by simp
qed

subsection \<open>The example of the specification\<close>

text \<open>
  Claim C7: for the resume \<^verbatim>\<open>I know Python and Excel\<close> and the job text
  \<^verbatim>\<open>Python Python SQL SQL SQL Excel\<close>, analyze\_match returns the score 67, the overlap
  excel and python, sql missing, and the keywords sql: 3, python: 2, excel: 1.
\<close>

theorem analyze_match_example:
  "analyze_match ''I know Python and Excel'' ''Python Python SQL SQL SQL Excel'' =
     Inr \<lparr>match_score = 67, overlap = [''excel'', ''python''], missing = [''sql''],
          top_job_keywords = [(''sql'', 3), (''python'', 2), (''excel'', 1)]\<rparr>"
  by code_simp

subsection \<open>Equal token sets\<close>

text \<open>
  Claim C8: when the resume and the job text have the same set of tokens, and it is
  not empty, analyze\_match returns the score 100 and nothing missing.
\<close>

theorem same_tokens_full_score:
  assumes "set (tokenize resume_text) = set (tokenize job_text)"
    and "set (tokenize job_text) \<noteq> {}"
  shows "\<exists>r. analyze_match resume_text job_text = Inr r \<and> match_score r = 100 \<and> missing r = []"
proof -
  have "card (set (tokenize job_text)) \<noteq> 0" using assms(2) by simp
  then have "(of_nat (card (set (tokenize job_text))) :: rat) / of_nat (card (set (tokenize job_text))) = 1"
    by simp
  then show ?thesis
    using assms
    by (simp add: analyze_match_eq to_double_one float_mul_one_hundred round_half_even_hundred)
qed

text \<open>
  Claim C8 at a concrete input: both texts have the tokens python and sql.
\<close>

theorem same_tokens_full_score_witness:
  "set (tokenize ''SQL python sql'') = set (tokenize ''Python and SQL'') \<and>
   set (tokenize ''Python and SQL'') \<noteq> {} \<and>
   (\<exists>r. analyze_match ''SQL python sql'' ''Python and SQL'' = Inr r \<and>
        match_score r = 100 \<and> missing r = [])"
proof -
  have h1: "set (tokenize ''SQL python sql'') = set (tokenize ''Python and SQL'')"
    by (auto simp: same_tokens)
  have h2: "set (tokenize ''Python and SQL'') \<noteq> {}" by (simp add: same_tokens)
  show ?thesis using same_tokens_full_score [OF h1 h2] h1 h2 by blast
qed

subsection \<open>Determinism\<close>

text \<open>
  Claim C9: analyze\_match reads nothing but its two arguments and the constant
  stopwords, and changes nothing. The one thing that differs between two runs on the
  same texts is the order in which Python lists a set; whatever the two orders are, the
  two results are equal.
\<close>

theorem analyze_match_deterministic:
  assumes "iteration_order iter" and "iteration_order iter'"
  shows "analyze_match_iter iter resume_text job_text =
         analyze_match_iter iter' resume_text job_text"
  by (simp only: analyze_match_iter_eq [OF assms(1)] analyze_match_iter_eq [OF assms(2)])

text \<open>
  Claim C9 at a concrete input: listing the sets in ascending and in descending
  order gives the same result.
\<close>

theorem analyze_match_deterministic_witness:
  "iteration_order sorted_list_of_set \<and>
   iteration_order (\<lambda>s. rev (sorted_list_of_set s)) \<and>
   analyze_match_iter sorted_list_of_set ''python sql'' ''Python, SQL and Excel; Excel!'' =
   analyze_match_iter (\<lambda>s. rev (sorted_list_of_set s)) ''python sql'' ''Python, SQL and Excel; Excel!''"
  using analyze_match_deterministic [OF iteration_order_sorted_list iteration_order_rev]
    iteration_order_sorted_list iteration_order_rev by blast

end
